theory Spec2Isabelle
  imports Main "HOL-Library.Multiset" "HOL-Library.Sublist"
begin

section \<open>The notebook's data\<close>

text \<open>
  The notebook \<^verbatim>\<open>streaming-stock-data-analysis-setup.py\<close> bootstraps Delta Lake tables and
  then replays the rows of a Parquet file into the table \<^verbatim>\<open>stockDailyPrices_delta\<close>, a few
  price dates at a time.

  A \<^verbatim>\<open>price_date\<close> is a calendar date. Python's \<^verbatim>\<open>datetime.date\<close> is totally ordered and
  its order is that of \<^verbatim>\<open>date.toordinal()\<close>, so a date is modelled by its ordinal. The
  insert statement compares the column with the dates rendered by \<^verbatim>\<open>strftime('%Y-%m-%d')\<close>;
  the model takes the comparison to be the comparison of the dates (four-digit years, no
  null dates).
\<close>

type_synonym date = int

text \<open>
  A row of \<^verbatim>\<open>stockDailyPrices\<close>: the ticker, the price date, and the ten numeric columns
  (\<^verbatim>\<open>open\<close> ... \<^verbatim>\<open>adj_volume\<close>), which \<^verbatim>\<open>select f.*\<close> copies and the loop never inspects.
\<close>

record price_row =
  ticker :: string
  price_date :: date
  quotes :: "int list"

text \<open>
  What can escape from a cell: Python's \<^verbatim>\<open>IndexError\<close> of a list subscript, and whatever
  the engine raises from \<^verbatim>\<open>spark.sql\<close> or from a read, with the engine's own message.
\<close>

datatype exn = IndexError | SparkException string

section \<open>Python list subscripts\<close>

text \<open>
  \<^verbatim>\<open>xs[j]\<close>: a negative subscript counts from the end of the list, and a subscript outside
  \<open>-len(xs) .. len(xs) - 1\<close> raises \<^verbatim>\<open>IndexError\<close>.
\<close>

definition py_index :: "'a list \<Rightarrow> int \<Rightarrow> exn + 'a" where
  "py_index xs j =
     (let n = int (length xs);
          k = (if j < 0 then j + n else j)
      in if 0 \<le> k \<and> k < n then Inr (xs ! nat k) else Inl IndexError)"

section \<open>The engine's side of the replay\<close>

text \<open>
  \<^verbatim>\<open>select distinct price_date from stockDailyPrices order by price_date\<close>, collected into
  the Python list \<^verbatim>\<open>datelist\<close>.
\<close>

definition distinct_price_dates :: "price_row list \<Rightarrow> date list" where
  "distinct_price_dates stockDailyPrices = sort (remdups (map price_date stockDailyPrices))"

text \<open>
  \<^verbatim>\<open>select f.* from stockDailyPrices f where f.price_date >= lo and f.price_date <= hi\<close>.
\<close>

definition select_range :: "price_row list \<Rightarrow> date \<Rightarrow> date \<Rightarrow> price_row list" where
  "select_range stockDailyPrices lo hi =
     filter (\<lambda>f. lo \<le> price_date f \<and> price_date f \<le> hi) stockDailyPrices"

text \<open>
  \<^verbatim>\<open>spark.sql(insert_sql)\<close> is a call into the engine. The statement is determined by the
  two dates spliced into it, so the engine is a function from these two dates and the
  table's rows to either the message of the exception it raises or the table's new rows.
  A Delta commit is atomic: a statement that raises leaves the table as it was, which is why
  the failing branch carries no table.
\<close>

type_synonym spark_sql = "date \<times> date \<Rightarrow> price_row list \<Rightarrow> string + price_row list"

text \<open>The engine when nothing goes wrong: the selected rows are appended to the table.\<close>

definition insert_into :: "price_row list \<Rightarrow> spark_sql" where
  "insert_into stockDailyPrices = (\<lambda>(lo, hi) tbl. Inr (tbl @ select_range stockDailyPrices lo hi))"

text \<open>
  An engine that raises on the statements \<open>fails\<close> names (storage unavailable, say) and
  appends otherwise.
\<close>

definition insert_failing :: "(date \<times> date \<Rightarrow> string option) \<Rightarrow> price_row list \<Rightarrow> spark_sql" where
  "insert_failing fails stockDailyPrices =
     (\<lambda>stmt tbl. case fails stmt of
                   Some msg \<Rightarrow> Inl msg
                 | None \<Rightarrow> insert_into stockDailyPrices stmt tbl)"

section \<open>The replay loop\<close>

text \<open>
  The state of the last code cell: the loop variable \<^verbatim>\<open>i\<close>, the rows of
  \<^verbatim>\<open>stockDailyPrices_delta\<close>, and the traces of the cell's effects: the statements handed to
  \<^verbatim>\<open>spark.sql\<close>, the (min, max) pairs printed, and the seconds slept.
\<close>

record replay_state =
  i :: int
  table :: "price_row list"
  submitted :: "(date \<times> date) list"
  printed :: "(date \<times> date) list"
  slept :: nat

text \<open>
  One run of the loop body (source lines 144 to 156). An exception leaves the body at once;
  it is returned with the state it leaves behind, in which \<^verbatim>\<open>i\<close> has not been advanced.
\<close>

definition loop_body ::
  "spark_sql \<Rightarrow> date list \<Rightarrow> int \<Rightarrow> replay_state \<Rightarrow> (exn \<times> replay_state) + replay_state" where
  "loop_body sql datelist daysAtOnce s =
     (case py_index datelist (i s) of
        Inl e \<Rightarrow> Inl (e, s)
      | Inr price_date_min \<Rightarrow>
          (case py_index datelist (i s + daysAtOnce - 1) of
             Inl e \<Rightarrow> Inl (e, s)
           | Inr price_date_max \<Rightarrow>
               (let stmt = (price_date_min, price_date_max);
                    s1 = s\<lparr>submitted := submitted s @ [stmt]\<rparr>
                in case sql stmt (table s) of
                     Inl msg \<Rightarrow> Inl (SparkException msg, s1)
                   | Inr tbl \<Rightarrow>
                       Inr (s1\<lparr>table := tbl,
                               printed := printed s @ [stmt],
                               i := i s + daysAtOnce,
                               slept := slept s + 7\<rparr>))))"

text \<open>
  \<^verbatim>\<open>while (i < datelist_len)\<close> with \<^verbatim>\<open>datelist_len = len(datelist) - 1\<close>. The loop need not
  end (\<^verbatim>\<open>daysAtOnce = 0\<close>), so its result is optional: \<open>None\<close> is a run that never returns,
  \<open>Some (Inl (e, s))\<close> a run that exception \<open>e\<close> ended in state \<open>s\<close>, and \<open>Some (Inr s)\<close> a
  run that left the loop in state \<open>s\<close>.
\<close>

partial_function (option) replay_loop ::
  "spark_sql \<Rightarrow> date list \<Rightarrow> int \<Rightarrow> replay_state \<Rightarrow> ((exn \<times> replay_state) + replay_state) option" where
  "replay_loop sql datelist daysAtOnce s =
     (if i s < int (length datelist) - 1 then
        (case loop_body sql datelist daysAtOnce s of
           Inl raised \<Rightarrow> Some (Inl raised)
         | Inr s' \<Rightarrow> replay_loop sql datelist daysAtOnce s')
      else Some (Inr s))"

declare replay_loop.simps [code]

text \<open>The state in which the cell starts: \<^verbatim>\<open>i = 0\<close> and the table as it was created, empty.\<close>

definition start :: replay_state where
  "start = \<lparr>i = 0, table = [], submitted = [], printed = [], slept = 0\<rparr>"

text \<open>The last two code cells, for an engine and a value of \<^verbatim>\<open>daysAtOnce\<close>.\<close>

definition replay ::
  "spark_sql \<Rightarrow> price_row list \<Rightarrow> int \<Rightarrow> ((exn \<times> replay_state) + replay_state) option" where
  "replay sql stockDailyPrices daysAtOnce =
     replay_loop sql (distinct_price_dates stockDailyPrices) daysAtOnce start"

text \<open>The notebook as written: \<^verbatim>\<open>daysAtOnce = 3\<close>.\<close>

definition stream_prices ::
  "price_row list \<Rightarrow> ((exn \<times> replay_state) + replay_state) option" where
  "stream_prices stockDailyPrices = replay (insert_into stockDailyPrices) stockDailyPrices 3"

text \<open>
  The state after \<open>k\<close> completed runs of the body, when the loop gets that far: \<open>None\<close> when
  the loop has been left, or an exception has ended it, before.
\<close>

fun after_iterations ::
  "spark_sql \<Rightarrow> date list \<Rightarrow> int \<Rightarrow> nat \<Rightarrow> replay_state \<Rightarrow> replay_state option" where
  "after_iterations sql datelist daysAtOnce 0 s = Some s"
| "after_iterations sql datelist daysAtOnce (Suc k) s =
     (if i s < int (length datelist) - 1 then
        (case loop_body sql datelist daysAtOnce s of
           Inl raised \<Rightarrow> None
         | Inr s' \<Rightarrow> after_iterations sql datelist daysAtOnce k s')
      else None)"

section \<open>The bootstrap of the price table\<close>

text \<open>
  The first code cells work on DBFS. A path is the list of its components; the store maps a
  path to the dataset kept there, which is its column names (the schema) and its rows.
\<close>

type_synonym path = "string list"

record dataset =
  columns :: "string list"
  rows :: "price_row list"

type_synonym dbfs = "path \<rightharpoonup> dataset"

definition parquetPricePath :: path where
  "parquetPricePath =
     [''ml'', ''streaming-stock-analysis'', ''parquet'', ''stocksDailyPricesSample'']"

definition deltaPricePath :: path where
  "deltaPricePath = [''ml'', ''streaming-stock-analysis'', ''delta'', ''stocksDailyPrices'']"

text \<open>
  \<^verbatim>\<open>dbutils.fs.rm(path, recurse=True)\<close> removes the path and all below it; a path that does not
  exist is no error (the call returns \<^verbatim>\<open>False\<close>).
\<close>

definition fs_rm :: "path \<Rightarrow> dbfs \<Rightarrow> dbfs" where
  "fs_rm p fs = (\<lambda>q. if prefix p q then None else fs q)"

text \<open>\<^verbatim>\<open>spark.read.parquet(path)\<close> raises when there is nothing at the path.\<close>

definition read_parquet :: "dbfs \<Rightarrow> path \<Rightarrow> exn + dataset" where
  "read_parquet fs p =
     (case fs p of
        None \<Rightarrow> Inl (SparkException ''Path does not exist'')
      | Some df \<Rightarrow> Inr df)"

text \<open>\<^verbatim>\<open>df.limit(k)\<close> keeps the schema and at most \<open>k\<close> rows.\<close>

definition limit :: "nat \<Rightarrow> dataset \<Rightarrow> dataset" where
  "limit k df = df\<lparr>rows := take k (rows df)\<rparr>"

text \<open>
  \<^verbatim>\<open>df.write.mode("overwrite").format("delta").save(path)\<close> replaces what the path holds by
  the dataset.
\<close>

definition save_overwrite :: "dataset \<Rightarrow> path \<Rightarrow> dbfs \<Rightarrow> dbfs" where
  "save_overwrite df p fs = (fs_rm p fs)(p \<mapsto> df)"

text \<open>
  Source lines 54 to 56. The result is the store the cell leaves behind, with the exception
  when the read raised.
\<close>

definition build_price_table :: "dbfs \<Rightarrow> (exn \<times> dbfs) + dbfs" where
  "build_price_table fs =
     (let fs1 = fs_rm deltaPricePath fs
      in case read_parquet fs1 parquetPricePath of
           Inl e \<Rightarrow> Inl (e, fs1)
         | Inr df \<Rightarrow>
             (let dfPriceTable = limit 0 df
              in Inr (save_overwrite dfPriceTable deltaPricePath fs1)))"

section \<open>The batches in closed form\<close>

text \<open>
  For a positive \<^verbatim>\<open>daysAtOnce = b\<close>, the \<open>j\<close>-th run of the body (counting from 0) starts at
  \<open>i = j * b\<close> and reads \<open>datelist[j * b]\<close> and \<open>datelist[j * b + b - 1]\<close>. The definitions
  below name these pairs, the rows their statements select, and the state the loop is in
  after \<open>k\<close> such runs; the lemmas of the next section show that the loop computes them.
\<close>

definition batch :: "date list \<Rightarrow> nat \<Rightarrow> nat \<Rightarrow> date \<times> date" where
  "batch datelist b j = (datelist ! (j * b), datelist ! (j * b + b - 1))"

text \<open>The statements of the first \<open>k\<close> runs, in order.\<close>

definition batches :: "date list \<Rightarrow> nat \<Rightarrow> nat \<Rightarrow> (date \<times> date) list" where
  "batches datelist b k = map (batch datelist b) [0..<k]"

text \<open>The rows a list of statements appends, in order.\<close>

definition batch_rows :: "price_row list \<Rightarrow> (date \<times> date) list \<Rightarrow> price_row list" where
  "batch_rows src ws = concat (map (\<lambda>(lo, hi). select_range src lo hi) ws)"

text \<open>The state after \<open>k\<close> runs of the body, starting from \<open>start\<close>.\<close>

definition state_after :: "price_row list \<Rightarrow> date list \<Rightarrow> nat \<Rightarrow> nat \<Rightarrow> replay_state" where
  "state_after src datelist b k =
     \<lparr>i = int (k * b), table = batch_rows src (batches datelist b k),
      submitted = batches datelist b k, printed = batches datelist b k, slept = 7 * k\<rparr>"

text \<open>A row of the ticker AAPL on a given date, for the examples.\<close>

abbreviation day :: "date \<Rightarrow> price_row" where
  "day d \<equiv> \<lparr>ticker = ''AAPL'', price_date = d, quotes = []\<rparr>"

section \<open>One run of the body\<close>

lemma py_index_nat: "m < length xs \<Longrightarrow> py_index xs (int m) = Inr (xs ! m)"
  by (simp add: py_index_def)

lemma py_index_beyond: "length xs \<le> m \<Longrightarrow> py_index xs (int m) = Inl IndexError"
  by (simp add: py_index_def)

lemma batches_Suc: "batches ks b (Suc k) = batches ks b k @ [batch ks b k]"
  by (simp add: batches_def)

lemma batch_rows_snoc: "batch_rows src (ws @ [w]) = batch_rows src ws @ select_range src (fst w) (snd w)"
  by (simp add: batch_rows_def split: prod.splits)

lemma state_after_0: "state_after src ks b 0 = start"
  by (simp add: state_after_def start_def batches_def batch_rows_def)

lemma upper_index: "0 < b \<Longrightarrow> int (j * b) + int b - 1 = int (j * b + b - 1)"
  by (cases b) simp_all

lemma body_ok:
  assumes b: "0 < b" and fit: "Suc j * b \<le> length ks"
    and sql: "sql (batch ks b j) (table (state_after src ks b j)) =
              Inr (table (state_after src ks b j) @ select_range src (fst (batch ks b j)) (snd (batch ks b j)))"
  shows "loop_body sql ks (int b) (state_after src ks b j) = Inr (state_after src ks b (Suc j))"
proof -
  from b fit have lo: "j * b < length ks" and hi: "j * b + b - 1 < length ks"
    by simp_all
  have min: "py_index ks (i (state_after src ks b j)) = Inr (ks ! (j * b))"
    using py_index_nat [OF lo] by (simp add: state_after_def)
  have max: "py_index ks (i (state_after src ks b j) + int b - 1) = Inr (ks ! (j * b + b - 1))"
    using py_index_nat [OF hi] upper_index [OF b, of j] by (simp add: state_after_def)
  have stmt: "(ks ! (j * b), ks ! (j * b + b - 1)) = batch ks b j"
    by (simp add: batch_def)
  have "loop_body sql ks (int b) (state_after src ks b j) =
        Inr ((state_after src ks b j)
              \<lparr>submitted := submitted (state_after src ks b j) @ [batch ks b j],
               table := table (state_after src ks b j) @
                        select_range src (fst (batch ks b j)) (snd (batch ks b j)),
               printed := printed (state_after src ks b j) @ [batch ks b j],
               i := i (state_after src ks b j) + int b,
               slept := slept (state_after src ks b j) + 7\<rparr>)"
    by (simp only: loop_body_def min max sum.case Let_def stmt sql)
  also have "\<dots> = Inr (state_after src ks b (Suc j))"
    by (simp add: state_after_def batches_Suc batch_rows_snoc algebra_simps)
  finally show ?thesis .
qed

lemma body_raises:
  assumes b: "0 < b" and fit: "Suc j * b \<le> length ks"
    and sql: "sql (batch ks b j) (table (state_after src ks b j)) = Inl msg"
  shows "loop_body sql ks (int b) (state_after src ks b j) =
         Inl (SparkException msg,
              (state_after src ks b j)\<lparr>submitted := batches ks b (Suc j)\<rparr>)"
proof -
  from b fit have lo: "j * b < length ks" and hi: "j * b + b - 1 < length ks"
    by simp_all
  have min: "py_index ks (i (state_after src ks b j)) = Inr (ks ! (j * b))"
    using py_index_nat [OF lo] by (simp add: state_after_def)
  have max: "py_index ks (i (state_after src ks b j) + int b - 1) = Inr (ks ! (j * b + b - 1))"
    using py_index_nat [OF hi] upper_index [OF b, of j] by (simp add: state_after_def)
  have stmt: "(ks ! (j * b), ks ! (j * b + b - 1)) = batch ks b j"
    by (simp add: batch_def)
  have "loop_body sql ks (int b) (state_after src ks b j) =
        Inl (SparkException msg,
             (state_after src ks b j)
               \<lparr>submitted := submitted (state_after src ks b j) @ [batch ks b j]\<rparr>)"
    by (simp only: loop_body_def min max sum.case Let_def stmt sql)
  also have "\<dots> = Inl (SparkException msg,
              (state_after src ks b j)\<lparr>submitted := batches ks b (Suc j)\<rparr>)"
    by (simp add: state_after_def batches_Suc)
  finally show ?thesis .
qed

lemma body_index_fault:
  assumes b: "0 < b" and lo: "j * b < length ks" and over: "length ks < Suc j * b"
  shows "loop_body sql ks (int b) (state_after src ks b j) = Inl (IndexError, state_after src ks b j)"
proof -
  from over b have hi: "length ks \<le> j * b + b - 1"
    by simp
  have min: "py_index ks (i (state_after src ks b j)) = Inr (ks ! (j * b))"
    using py_index_nat [OF lo] by (simp add: state_after_def)
  have max: "py_index ks (i (state_after src ks b j) + int b - 1) = Inl IndexError"
    using py_index_beyond [OF hi] upper_index [OF b, of j] by (simp add: state_after_def)
  show ?thesis
    unfolding loop_body_def min max by simp
qed

lemma insert_into_appends:
  "insert_into src w tbl = Inr (tbl @ select_range src (fst w) (snd w))"
  by (simp add: insert_into_def split: prod.splits)

lemma loop_continue:
  assumes "i s < int (length ks) - 1" and "loop_body sql ks d s = Inr s'"
  shows "replay_loop sql ks d s = replay_loop sql ks d s'"
  using assms by (subst replay_loop.simps) simp

lemma loop_raise:
  assumes "i s < int (length ks) - 1" and "loop_body sql ks d s = Inl r"
  shows "replay_loop sql ks d s = Some (Inl r)"
  using assms by (subst replay_loop.simps) simp

lemma loop_exit:
  assumes "\<not> i s < int (length ks) - 1"
  shows "replay_loop sql ks d s = Some (Inr s)"
  using assms by (subst replay_loop.simps) simp

lemma after_iterations_loop:
  "after_iterations sql ks d k s = Some s' \<Longrightarrow> replay_loop sql ks d s = replay_loop sql ks d s'"
proof (induction k arbitrary: s)
  case 0
  then show ?case by simp
next
  case (Suc k)
  then show ?case
    by (auto split: if_splits sum.splits simp: loop_continue)
qed


lemma i_state_after: "i (state_after src ks b j) = int (j * b)"
  by (simp add: state_after_def)

lemma run_batches:
  assumes b: "0 < b"
    and fit: "(j + k) * b \<le> length ks"
    and more: "\<forall>l<j + k. Suc (l * b) < length ks"
    and sql: "\<forall>l<j + k. sql (batch ks b l) (table (state_after src ks b l)) =
                Inr (table (state_after src ks b l) @
                     select_range src (fst (batch ks b l)) (snd (batch ks b l)))"
  shows "after_iterations sql ks (int b) k (state_after src ks b j) =
         Some (state_after src ks b (j + k))"
  using fit more sql
proof (induction k arbitrary: j)
  case 0
  then show ?case by simp
next
  case (Suc k)
  have "Suc (j * b) < length ks"
    using Suc.prems(2) by simp
  then have cond: "i (state_after src ks b j) < int (length ks) - 1"
    unfolding i_state_after by linarith
  have "Suc j * b \<le> (j + Suc k) * b"
    by (rule mult_le_mono1) simp
  then have "Suc j * b \<le> length ks"
    using Suc.prems(1) by (rule le_trans)
  moreover have "sql (batch ks b j) (table (state_after src ks b j)) =
                Inr (table (state_after src ks b j) @
                     select_range src (fst (batch ks b j)) (snd (batch ks b j)))"
    using Suc.prems(3) by simp
  ultimately have body: "loop_body sql ks (int b) (state_after src ks b j) =
                         Inr (state_after src ks b (Suc j))"
    using b by (intro body_ok)
  have "after_iterations sql ks (int b) k (state_after src ks b (Suc j)) =
        Some (state_after src ks b (Suc j + k))"
    using Suc.prems by (intro Suc.IH) simp_all
  then show ?case
    using cond body by simp
qed


lemma quotient_le: "(m::nat) div b * b \<le> m"
  by simp

lemma quotient_gt: "0 < b \<Longrightarrow> (m::nat) < Suc (m div b) * b"
  by (simp add: dividend_less_div_times add.commute)

lemma replay_closed_form:
  fixes ks :: "date list" and b :: nat
  defines "q \<equiv> (length ks - 1) div b"
  assumes b: "0 < b"
  shows "replay_loop (insert_into src) ks (int b) start =
     (if b dvd (length ks - 1) then Some (Inr (state_after src ks b q))
      else if b dvd length ks then Some (Inr (state_after src ks b (Suc q)))
      else Some (Inl (IndexError, state_after src ks b q)))"
proof -
  let ?n = "length ks"
  have qle: "q * b \<le> ?n - 1"
    unfolding q_def by (rule quotient_le)
  have qgt: "?n - 1 < Suc q * b"
    unfolding q_def using b by (rule quotient_gt)
  have before: "Suc (l * b) < ?n" if "l < q" for l
  proof -
    from that have "Suc l * b \<le> q * b"
      by (intro mult_le_mono1) simp
    with qle b show ?thesis by simp
  qed
  have "after_iterations (insert_into src) ks (int b) q (state_after src ks b 0) =
        Some (state_after src ks b (0 + q))"
    using b qle before by (intro run_batches) (simp_all add: insert_into_appends)
  then have reach: "replay_loop (insert_into src) ks (int b) start =
                    replay_loop (insert_into src) ks (int b) (state_after src ks b q)"
    by (simp add: state_after_0 after_iterations_loop)
  show ?thesis
  proof (cases "b dvd (?n - 1)")
    case True
    then have "q * b = ?n - 1"
      unfolding q_def by (rule dvd_div_mult_self)
    then have "\<not> i (state_after src ks b q) < int ?n - 1"
      unfolding i_state_after by linarith
    then show ?thesis
      using True reach by (simp add: loop_exit)
  next
    case False
    then have "q * b \<noteq> ?n - 1"
      by (metis dvd_triv_right)
    with qle have lt: "q * b < ?n - 1" by simp
    then have cond: "i (state_after src ks b q) < int ?n - 1"
      unfolding i_state_after by linarith
    show ?thesis
    proof (cases "b dvd ?n")
      case True
      then obtain c where c: "?n = c * b"
        by (metis dvd_div_mult_self)
      from lt have "q * b < ?n" by simp
      then have "q * b < c * b" by (simp only: c)
      then have "q < c" by simp
      moreover from qgt have "?n \<le> Suc q * b" by linarith
      then have "c * b \<le> Suc q * b" by (simp only: c)
      then have "c \<le> Suc q" using b by (metis mult_le_cancel2)
      ultimately have "c = Suc q" by simp
      with c have full: "Suc q * b = ?n" by simp
      then have "loop_body (insert_into src) ks (int b) (state_after src ks b q) =
                 Inr (state_after src ks b (Suc q))"
        using b by (intro body_ok) (simp_all add: insert_into_appends)
      then have "replay_loop (insert_into src) ks (int b) (state_after src ks b q) =
                 replay_loop (insert_into src) ks (int b) (state_after src ks b (Suc q))"
        using cond by (rule loop_continue [rotated])
      moreover have "\<not> i (state_after src ks b (Suc q)) < int ?n - 1"
        unfolding i_state_after full by simp
      ultimately show ?thesis
        using True \<open>\<not> b dvd (?n - 1)\<close> reach by (simp add: loop_exit)
    next
      case False
      then have "Suc q * b \<noteq> ?n"
        by (metis dvd_triv_right)
      with qgt have over: "?n < Suc q * b" by linarith
      from lt have "q * b < ?n" by simp
      then have "loop_body (insert_into src) ks (int b) (state_after src ks b q) =
                 Inl (IndexError, state_after src ks b q)"
        using b over by (intro body_index_fault)
      then have "replay_loop (insert_into src) ks (int b) (state_after src ks b q) =
                 Some (Inl (IndexError, state_after src ks b q))"
        using cond by (rule loop_raise [rotated])
      then show ?thesis
        using False \<open>\<not> b dvd (?n - 1)\<close> reach by simp
    qed
  qed
qed

section \<open>Ascending batches and the rows they select\<close>

lemma datelist_strict: "sorted_wrt (<) (distinct_price_dates src)"
  by (simp add: distinct_price_dates_def strict_sorted_iff)

lemma datelist_set: "set (distinct_price_dates src) = price_date ` set src"
  by (simp add: distinct_price_dates_def)

lemma nth_less_iff:
  assumes "sorted_wrt (<) (ks :: date list)" and "a < length ks" and "c < length ks"
  shows "ks ! a < ks ! c \<longleftrightarrow> a < c"
proof
  assume "a < c"
  with assms show "ks ! a < ks ! c"
    by (simp add: sorted_wrt_nth_less)
next
  assume lt: "ks ! a < ks ! c"
  show "a < c"
  proof (rule ccontr)
    assume "\<not> a < c"
    then consider "c < a" | "c = a" by linarith
    then show False
    proof cases
      case 1
      with assms have "ks ! c < ks ! a"
        by (simp add: sorted_wrt_nth_less)
      with lt show False by simp
    next
      case 2
      with lt show False by simp
    qed
  qed
qed

lemma nth_le_iff:
  assumes "sorted_wrt (<) (ks :: date list)" and "a < length ks" and "c < length ks"
  shows "ks ! a \<le> ks ! c \<longleftrightarrow> a \<le> c"
  using nth_less_iff [OF assms(1) assms(3) assms(2)] by (simp add: not_less [symmetric])

lemma batches_ascending:
  assumes strict: "sorted_wrt (<) ks" and b: "0 < b" and fit: "k * b \<le> length ks"
  shows "sorted_wrt (\<lambda>earlier later. snd earlier < fst later) (batches ks b k)"
proof -
  have "snd (batch ks b j) < fst (batch ks b j')" if "j < j'" and "j' < k" for j j'
  proof -
    from that have "Suc j * b \<le> j' * b" and "Suc j' * b \<le> k * b"
      by (simp_all only: mult_le_mono1 Suc_leI)
    with b fit have "j * b + b - 1 < j' * b" and "j' * b < length ks"
      by simp_all
    then show ?thesis
      using strict by (simp add: batch_def sorted_wrt_nth_less)
  qed
  then show ?thesis
    by (simp add: batches_def sorted_wrt_map sorted_wrt_iff_nth_less)
qed

lemma mset_filter_split:
  "\<forall>x\<in>set xs. \<not> (P x \<and> Q x) \<Longrightarrow>
   mset (filter P xs) + mset (filter Q xs) = mset (filter (\<lambda>x. P x \<or> Q x) xs)"
  by (induction xs) auto

lemma batch_rows_Cons:
  "batch_rows src (w # ws) = select_range src (fst w) (snd w) @ batch_rows src ws"
  by (simp add: batch_rows_def split: prod.splits)

lemma batch_rows_mset:
  assumes "sorted_wrt (\<lambda>earlier later. snd earlier < fst later) ws"
  shows "mset (batch_rows src ws) =
         mset (filter (\<lambda>f. \<exists>(lo, hi)\<in>set ws. lo \<le> price_date f \<and> price_date f \<le> hi) src)"
  using assms
proof (induction ws)
  case Nil
  then show ?case by (simp add: batch_rows_def)
next
  case (Cons w ws)
  let ?P = "\<lambda>f. fst w \<le> price_date f \<and> price_date f \<le> snd w"
  let ?Q = "\<lambda>f. \<exists>(lo, hi)\<in>set ws. lo \<le> price_date f \<and> price_date f \<le> hi"
  from Cons.prems have later: "\<forall>w'\<in>set ws. snd w < fst w'" and rest: "sorted_wrt (\<lambda>earlier later. snd earlier < fst later) ws"
    by simp_all
  have "\<forall>f\<in>set src. \<not> (?P f \<and> ?Q f)"
    using later by fastforce
  then have split: "mset (filter ?P src) + mset (filter ?Q src) =
                    mset (filter (\<lambda>f. ?P f \<or> ?Q f) src)"
    by (rule mset_filter_split)
  have "mset (batch_rows src (w # ws)) = mset (filter ?P src) + mset (batch_rows src ws)"
    by (simp add: batch_rows_Cons select_range_def)
  also have "\<dots> = mset (filter ?P src) + mset (filter ?Q src)"
    using rest by (simp only: Cons.IH)
  also note split
  also have "(\<lambda>f. ?P f \<or> ?Q f) =
     (\<lambda>f. \<exists>(lo, hi)\<in>set (w # ws). lo \<le> price_date f \<and> price_date f \<le> hi)"
    by (cases w) (simp add: fun_eq_iff)
  finally show ?case .
qed

lemma after_iterations_closed:
  assumes b: "0 < b" and fit: "j * b \<le> length ks"
    and run: "after_iterations (insert_into src) ks (int b) k (state_after src ks b j) = Some s"
  shows "s = state_after src ks b (j + k) \<and> (j + k) * b \<le> length ks"
  using fit run
proof (induction k arbitrary: j)
  case 0
  then show ?case by simp
next
  case (Suc k)
  from Suc.prems(2) have cond: "i (state_after src ks b j) < int (length ks) - 1"
    by (simp split: if_splits)
  then have lo: "j * b < length ks"
    unfolding i_state_after by linarith
  show ?case
  proof (cases "Suc j * b \<le> length ks")
    case True
    then have "loop_body (insert_into src) ks (int b) (state_after src ks b j) =
               Inr (state_after src ks b (Suc j))"
      using b by (intro body_ok) (simp_all add: insert_into_appends)
    with Suc.prems(2) cond
    have "after_iterations (insert_into src) ks (int b) k (state_after src ks b (Suc j)) = Some s"
      by simp
    with True have "s = state_after src ks b (Suc j + k) \<and> (Suc j + k) * b \<le> length ks"
      by (rule Suc.IH)
    then show ?thesis by simp
  next
    case False
    then have "length ks < Suc j * b" by simp
    with b lo have "loop_body (insert_into src) ks (int b) (state_after src ks b j) =
                    Inl (IndexError, state_after src ks b j)"
      by (intro body_index_fault)
    with Suc.prems(2) cond show ?thesis by simp
  qed
qed

lemma after_iterations_start:
  assumes "0 < daysAtOnce"
    and "after_iterations (insert_into src) ks daysAtOnce k start = Some s"
  shows "s = state_after src ks (nat daysAtOnce) k" and "k * nat daysAtOnce \<le> length ks"
proof -
  have "after_iterations (insert_into src) ks (int (nat daysAtOnce)) k
          (state_after src ks (nat daysAtOnce) 0) = Some s"
    using assms by (simp add: state_after_0)
  moreover have "0 < nat daysAtOnce" and "0 * nat daysAtOnce \<le> length ks"
    using assms(1) by simp_all
  ultimately have "s = state_after src ks (nat daysAtOnce) (0 + k)
                   \<and> (0 + k) * nat daysAtOnce \<le> length ks"
    by (intro after_iterations_closed)
  then show "s = state_after src ks (nat daysAtOnce) k" and "k * nat daysAtOnce \<le> length ks"
    by simp_all
qed

lemma in_some_batch_iff:
  fixes b k m :: nat
  assumes "0 < b"
  shows "(\<exists>j<k. j * b \<le> m \<and> m \<le> j * b + b - 1) \<longleftrightarrow> m < k * b"
proof
  assume "\<exists>j<k. j * b \<le> m \<and> m \<le> j * b + b - 1"
  then obtain j where j: "j < k" "m \<le> j * b + b - 1"
    by blast
  from j(1) have "Suc j * b \<le> k * b"
    by (intro mult_le_mono1) simp
  with j(2) assms show "m < k * b"
    by simp
next
  assume lt: "m < k * b"
  then have "m div b < k"
    using assms by (simp add: less_mult_imp_div_less)
  moreover have "m div b * b \<le> m"
    by simp
  moreover have "m < Suc (m div b) * b"
    using assms by (rule quotient_gt)
  then have "m \<le> m div b * b + b - 1"
    by simp
  ultimately show "\<exists>j<k. j * b \<le> m \<and> m \<le> j * b + b - 1"
    by blast
qed

lemma covered_rows:
  assumes strict: "sorted_wrt (<) ks" and dates: "price_date ` set src \<subseteq> set ks"
    and b: "0 < b" and k: "0 < k" and fit: "k * b \<le> length ks"
  shows "filter (\<lambda>f. \<exists>(lo, hi)\<in>set (batches ks b k). lo \<le> price_date f \<and> price_date f \<le> hi) src =
         filter (\<lambda>f. ks ! 0 \<le> price_date f \<and> price_date f \<le> ks ! (k * b - 1)) src"
proof (rule filter_cong [OF refl])
  fix f
  assume "f \<in> set src"
  with dates have "price_date f \<in> set ks"
    by blast
  then obtain m where m: "m < length ks" "price_date f = ks ! m"
    by (metis in_set_conv_nth)
  from b k have pos: "0 < k * b" by simp
  with fit have first: "0 < length ks" and last: "k * b - 1 < length ks"
    by linarith+
  have inside: "j * b < length ks \<and> j * b + b - 1 < length ks" if "j < k" for j
  proof -
    from that have "Suc j * b \<le> k * b"
      by (intro mult_le_mono1) simp
    with fit b show ?thesis by simp
  qed
  have "(\<exists>(lo, hi)\<in>set (batches ks b k). lo \<le> price_date f \<and> price_date f \<le> hi) \<longleftrightarrow>
        (\<exists>j<k. ks ! (j * b) \<le> ks ! m \<and> ks ! m \<le> ks ! (j * b + b - 1))"
    by (auto simp: batches_def batch_def m(2))
  also have "\<dots> \<longleftrightarrow> (\<exists>j<k. j * b \<le> m \<and> m \<le> j * b + b - 1)"
    using inside m(1) by (auto simp: nth_le_iff [OF strict])
  also have "\<dots> \<longleftrightarrow> m < k * b"
    using b by (rule in_some_batch_iff)
  also have "\<dots> \<longleftrightarrow> 0 \<le> m \<and> m \<le> k * b - 1"
    using pos by linarith
  also have "\<dots> \<longleftrightarrow> ks ! 0 \<le> ks ! m \<and> ks ! m \<le> ks ! (k * b - 1)"
    using first last m(1) by (simp add: nth_le_iff [OF strict])
  finally show "(\<exists>(lo, hi)\<in>set (batches ks b k). lo \<le> price_date f \<and> price_date f \<le> hi) \<longleftrightarrow>
        ks ! 0 \<le> price_date f \<and> price_date f \<le> ks ! (k * b - 1)"
    by (simp only: m(2))
qed

lemma state_after_rows:
  assumes b: "0 < b" and k: "0 < k" and fit: "k * b \<le> length (distinct_price_dates src)"
  shows "mset (table (state_after src (distinct_price_dates src) b k)) =
         mset (filter (\<lambda>f. distinct_price_dates src ! 0 \<le> price_date f
                          \<and> price_date f \<le> distinct_price_dates src ! (k * b - 1)) src)"
proof -
  let ?ks = "distinct_price_dates src"
  have "sorted_wrt (\<lambda>earlier later. snd earlier < fst later) (batches ?ks b k)"
    using datelist_strict b fit by (rule batches_ascending)
  then have "mset (batch_rows src (batches ?ks b k)) =
     mset (filter (\<lambda>f. \<exists>(lo, hi)\<in>set (batches ?ks b k). lo \<le> price_date f \<and> price_date f \<le> hi) src)"
    by (rule batch_rows_mset)
  moreover have "price_date ` set src \<subseteq> set ?ks"
    by (simp add: datelist_set)
  note covered_rows [OF datelist_strict this b k fit]
  ultimately show ?thesis
    by (simp add: state_after_def)
qed

lemma all_rows_in_range:
  assumes "0 < length (distinct_price_dates src)"
  shows "filter (\<lambda>f. distinct_price_dates src ! 0 \<le> price_date f
              \<and> price_date f \<le> distinct_price_dates src ! (length (distinct_price_dates src) - 1)) src = src"
proof -
  let ?ks = "distinct_price_dates src"
  have "?ks ! 0 \<le> price_date f \<and> price_date f \<le> ?ks ! (length ?ks - 1)" if "f \<in> set src" for f
  proof -
    from that have "price_date f \<in> set ?ks"
      by (simp add: datelist_set)
    then obtain m where m: "m < length ?ks" "price_date f = ?ks ! m"
      by (metis in_set_conv_nth)
    then show ?thesis
      using assms by (simp add: nth_le_iff [OF datelist_strict])
  qed
  then show ?thesis
    by (simp add: filter_id_conv)
qed

lemma full_quotient:
  fixes b n :: nat
  assumes b: "0 < b" and short: "\<not> b dvd (n - 1)" and full: "b dvd n"
  shows "Suc ((n - 1) div b) * b = n"
proof -
  let ?q = "(n - 1) div b"
  from full obtain c where c: "n = c * b"
    by (metis dvd_div_mult_self)
  have "?q * b \<le> n - 1"
    by (rule quotient_le)
  moreover from short have "?q * b \<noteq> n - 1"
    by (metis dvd_triv_right)
  ultimately have "?q * b < n" by linarith
  then have "?q * b < c * b" by (simp only: c [symmetric])
  then have "?q < c" by simp
  have "n - 1 < Suc ?q * b"
    using b by (rule quotient_gt)
  then have "n \<le> Suc ?q * b" by linarith
  then have "c * b \<le> Suc ?q * b" by (simp only: c [symmetric])
  then have "c \<le> Suc ?q" using b by (metis mult_le_cancel2)
  with \<open>?q < c\<close> have "c = Suc ?q" by simp
  with c show ?thesis by simp
qed

lemma insert_failing_appends:
  "fails w = None \<Longrightarrow>
   insert_failing fails src w tbl = Inr (tbl @ select_range src (fst w) (snd w))"
  by (simp add: insert_failing_def insert_into_appends)

lemma insert_failing_raises:
  "fails w = Some msg \<Longrightarrow> insert_failing fails src w tbl = Inl msg"
  by (simp add: insert_failing_def)

section \<open>A step that is not positive\<close>

lemma body_appends:
  assumes "py_index ks (i s) = Inr lo" and "py_index ks (i s + d - 1) = Inr hi"
  shows "\<exists>s'. loop_body (insert_into src) ks d s = Inr s' \<and> i s' = i s + d"
  using assms by (simp add: loop_body_def insert_into_def Let_def)

lemma body_max_fault:
  assumes "py_index ks (i s) = Inr lo" and "py_index ks (i s + d - 1) = Inl e"
  shows "loop_body sql ks d s = Inl (e, s)"
  using assms by (simp add: loop_body_def)

lemma py_index_cases:
  "py_index ks j = Inl IndexError \<or> (\<exists>x. py_index ks j = Inr x)"
  by (simp add: py_index_def Let_def)

lemma py_index_in_range:
  assumes "- int (length ks) \<le> j" and "j < int (length ks)"
  shows "\<exists>x. py_index ks j = Inr x"
  using assms by (simp add: py_index_def Let_def)

lemma py_index_below:
  assumes "j < - int (length ks)"
  shows "py_index ks j = Inl IndexError"
  using assms by (simp add: py_index_def Let_def)

lemma py_index_valid_bounds:
  assumes "py_index ks j = Inr x"
  shows "- int (length ks) \<le> j \<and> j < int (length ks)"
  using assms by (simp add: py_index_def Let_def split: if_splits)

lemma negative_step_faults:
  assumes d: "d < 0" and n: "1 < length ks"
  shows "- int (length ks) < i s \<Longrightarrow> i s \<le> 0 \<Longrightarrow>
         \<exists>s'. replay_loop (insert_into src) ks d s = Some (Inl (IndexError, s'))"
proof (induction "nat (i s + int (length ks))" arbitrary: s rule: less_induct)
  case less
  from less.prems n have cond: "i s < int (length ks) - 1"
    by linarith
  from less.prems n have "- int (length ks) \<le> i s" and "i s < int (length ks)"
    by linarith+
  then obtain lo where lo: "py_index ks (i s) = Inr lo"
    using py_index_in_range by blast
  show ?case
  proof (cases "py_index ks (i s + d - 1)")
    case (Inl e)
    with py_index_cases [of ks "i s + d - 1"] have "py_index ks (i s + d - 1) = Inl IndexError"
      by simp
    with lo have "loop_body (insert_into src) ks d s = Inl (IndexError, s)"
      by (rule body_max_fault)
    with cond have "replay_loop (insert_into src) ks d s = Some (Inl (IndexError, s))"
      by (rule loop_raise)
    then show ?thesis by blast
  next
    case (Inr hi)
    with lo obtain s' where s': "loop_body (insert_into src) ks d s = Inr s'" "i s' = i s + d"
      using body_appends by blast
    from Inr have "- int (length ks) \<le> i s + d - 1"
      by (rule py_index_valid_bounds [THEN conjunct1])
    with d less.prems s'(2) have "- int (length ks) < i s'" and "i s' \<le> 0"
      and "nat (i s' + int (length ks)) < nat (i s + int (length ks))"
      by linarith+
    then have "\<exists>s''. replay_loop (insert_into src) ks d s' = Some (Inl (IndexError, s''))"
      using less.hyps by blast
    moreover from cond s'(1)
    have "replay_loop (insert_into src) ks d s = replay_loop (insert_into src) ks d s'"
      by (rule loop_continue)
    ultimately show ?thesis by simp
  qed
qed

lemma zero_step_diverges:
  assumes run: "replay_loop sql ks d s = Some r"
  shows "\<not> (sql = insert_into src \<and> d = 0 \<and> i s = 0 \<and> 1 < length ks)"
proof (rule replay_loop.raw_induct
    [where P = "\<lambda>sql ks d s r. \<not> (sql = insert_into src \<and> d = 0 \<and> i s = 0 \<and> 1 < length ks)",
     OF _ run])
  fix loop sql' ks' d' s' r'
  assume IH: "\<And>sql ks d s r. loop sql ks d s = Some r \<Longrightarrow>
                \<not> (sql = insert_into src \<and> d = 0 \<and> i s = 0 \<and> 1 < length ks)"
    and unfolded: "(if i s' < int (length ks') - 1
          then case loop_body sql' ks' d' s' of
                 Inl raised \<Rightarrow> Some (Inl raised)
               | Inr t \<Rightarrow> loop sql' ks' d' t
          else Some (Inr s')) = Some r'"
  show "\<not> (sql' = insert_into src \<and> d' = 0 \<and> i s' = 0 \<and> 1 < length ks')"
  proof
    assume stuck: "sql' = insert_into src \<and> d' = 0 \<and> i s' = 0 \<and> 1 < length ks'"
    then have cond: "i s' < int (length ks') - 1"
      by linarith
    from stuck have "- int (length ks') \<le> i s'" and "i s' < int (length ks')"
      by linarith+
    then obtain lo where lo: "py_index ks' (i s') = Inr lo"
      using py_index_in_range by blast
    from stuck have "- int (length ks') \<le> i s' + d' - 1" and "i s' + d' - 1 < int (length ks')"
      by linarith+
    then obtain hi where hi: "py_index ks' (i s' + d' - 1) = Inr hi"
      using py_index_in_range by blast
    from lo hi obtain t where t: "loop_body (insert_into src) ks' d' s' = Inr t" "i t = i s' + d'"
      using body_appends by blast
    with stuck cond unfolded have "loop sql' ks' d' t = Some r'"
      by simp
    then have "\<not> (sql' = insert_into src \<and> d' = 0 \<and> i t = 0 \<and> 1 < length ks')"
      by (rule IH)
    with stuck t(2) show False
      by simp
  qed
qed

section \<open>Removing and saving in the store\<close>

lemma fs_rm_twice: "fs_rm p (fs_rm p fs) = fs_rm p fs"
  by (simp add: fs_rm_def fun_eq_iff)

lemma fs_rm_saved: "fs_rm p (save_overwrite df p fs) = fs_rm p fs"
  by (simp add: fs_rm_def save_overwrite_def fun_eq_iff)

lemma source_kept: "fs_rm deltaPricePath fs parquetPricePath = fs parquetPricePath"
  by (simp add: fs_rm_def deltaPricePath_def parquetPricePath_def)

section \<open>The number of batches when the loop returns\<close>

lemma ceiling_exact:
  fixes b q :: nat
  assumes "0 < b"
  shows "(q * b + b - 1) div b = q"
proof -
  define x where "x = q * b"
  have lower: "b * q = x" and upper: "b * Suc q = x + b"
    by (simp_all add: x_def mult.commute)
  have "(x + b - 1) div b = q"
  proof (rule div_nat_eqI)
    show "b * q \<le> x + b - 1"
      unfolding lower using assms by linarith
    show "x + b - 1 < b * Suc q"
      unfolding upper using assms by linarith
  qed
  then show ?thesis
    by (simp only: x_def)
qed

lemma ceiling_short:
  fixes b q m :: nat
  assumes "1 < b" and "Suc q * b = Suc m"
  shows "(m + b - 1) div b = Suc q"
proof (rule div_nat_eqI)
  define x where "x = q * b"
  have lower: "b * Suc q = x + b" and upper: "b * Suc (Suc q) = x + b + b"
    by (simp_all add: x_def mult.commute)
  from assms(2) have m: "Suc m = x + b"
    by (simp add: x_def)
  show "b * Suc q \<le> m + b - 1"
    unfolding lower using assms(1) m by linarith
  show "m + b - 1 < b * Suc (Suc q)"
    unfolding upper using assms(1) m by linarith
qed

lemma batches_when_loop_returns:
  assumes pos: "0 < daysAtOnce"
    and run: "replay (insert_into src) src daysAtOnce = Some (Inr s)"
  shows "length (printed s) =
         (length (distinct_price_dates src) - 1 + nat daysAtOnce - 1) div nat daysAtOnce"
proof -
  let ?ks = "distinct_price_dates src"
  let ?n = "length ?ks"
  let ?b = "nat daysAtOnce"
  let ?q = "(?n - 1) div ?b"
  from pos have b: "0 < ?b" and int_b: "int ?b = daysAtOnce"
    by simp_all
  have closed: "replay (insert_into src) src daysAtOnce =
     (if ?b dvd (?n - 1) then Some (Inr (state_after src ?ks ?b ?q))
      else if ?b dvd ?n then Some (Inr (state_after src ?ks ?b (Suc ?q)))
      else Some (Inl (IndexError, state_after src ?ks ?b ?q)))"
    unfolding replay_def using replay_closed_form [OF b, of src ?ks] by (simp only: int_b)
  have len: "length (printed (state_after src ?ks ?b k)) = k" for k
    by (simp add: state_after_def batches_def)
  show ?thesis
  proof (cases "?b dvd (?n - 1)")
    case True
    then have "?q * ?b = ?n - 1"
      by (rule dvd_div_mult_self)
    then have "(?n - 1 + ?b - 1) div ?b = ?q"
      using ceiling_exact [OF b, of ?q] by (simp only:)
    moreover from True closed run have "s = state_after src ?ks ?b ?q"
      by simp
    ultimately show ?thesis
      by (simp only: len)
  next
    case short: False
    show ?thesis
    proof (cases "?b dvd ?n")
      case True
      with b short have full: "Suc ?q * ?b = ?n"
        by (intro full_quotient)
      from short have "?b \<noteq> 1" and "0 < ?n - 1"
        by (auto intro: ccontr)
      with b have "1 < ?b" and "Suc (?n - 1) = ?n"
        by simp_all
      with full have "(?n - 1 + ?b - 1) div ?b = Suc ?q"
        by (intro ceiling_short) simp_all
      moreover from True short closed run have "s = state_after src ?ks ?b (Suc ?q)"
        by simp
      ultimately show ?thesis
        by (simp only: len)
    next
      case False
      with short closed run show ?thesis
        by simp
    qed
  qed
qed

section \<open>At most one distinct price date\<close>

text \<open>
  Claim C7. When the source has at most one distinct price date (it is empty, or all its
  rows carry the same date), \<^verbatim>\<open>datelist_len\<close> is \<open>-1\<close> or \<open>0\<close> and the loop condition
  \<^verbatim>\<open>i < datelist_len\<close> fails at \<^verbatim>\<open>i = 0\<close>: the cell returns normally in its starting state,
  with no statement submitted, nothing printed and the table still empty, whatever the
  engine and whatever \<^verbatim>\<open>daysAtOnce\<close>. No subscript is evaluated, and the cell contains no
  division.
\<close>

theorem at_most_one_date_no_batch:
  assumes "length (distinct_price_dates stockDailyPrices) \<le> 1"
  shows "replay sql stockDailyPrices daysAtOnce =
         Some (Inr \<lparr>i = 0, table = [], submitted = [], printed = [], slept = 0\<rparr>)"
proof -
  have "\<not> i start < int (length (distinct_price_dates stockDailyPrices)) - 1"
    using assms by (simp add: start_def)
  then have "replay sql stockDailyPrices daysAtOnce = Some (Inr start)"
    unfolding replay_def by (rule loop_exit)
  then show ?thesis
    by (simp add: start_def)
qed

theorem at_most_one_date_no_batch_witness:
  "length (distinct_price_dates []) \<le> 1
   \<and> replay (insert_into []) [] 3 =
       Some (Inr \<lparr>i = 0, table = [], submitted = [], printed = [], slept = 0\<rparr>)
   \<and> length (distinct_price_dates
         [\<lparr>ticker = ''AAPL'', price_date = 734503, quotes = [41]\<rparr>,
          \<lparr>ticker = ''MSFT'', price_date = 734503, quotes = [27]\<rparr>]) \<le> 1
   \<and> replay (insert_failing (\<lambda>stmt. Some ''unavailable'') [])
         [\<lparr>ticker = ''AAPL'', price_date = 734503, quotes = [41]\<rparr>,
          \<lparr>ticker = ''MSFT'', price_date = 734503, quotes = [27]\<rparr>] 0 =
       Some (Inr \<lparr>i = 0, table = [], submitted = [], printed = [], slept = 0\<rparr>)"
proof -
  have empty: "length (distinct_price_dates []) \<le> 1"
    by (simp add: distinct_price_dates_def)
  have single: "length (distinct_price_dates
         [\<lparr>ticker = ''AAPL'', price_date = 734503, quotes = [41]\<rparr>,
          \<lparr>ticker = ''MSFT'', price_date = 734503, quotes = [27]\<rparr>]) \<le> 1"
    by (simp add: distinct_price_dates_def)
  show ?thesis
    using empty single
      at_most_one_date_no_batch [OF empty, of "insert_into []" 3]
      at_most_one_date_no_batch [OF single, of "insert_failing (\<lambda>stmt. Some ''unavailable'') []" 0]
    by simp
qed

section \<open>The subscript of the upper bound\<close>

text \<open>
  Claim C1 says that the upper bound of a batch is read at the subscript
  \<open>min (i + batchSize - 1) (n - 1)\<close>, so that the read cannot fault. The cell reads
  \<^verbatim>\<open>datelist[i+daysAtOnce-1]\<close>, with no minimum. With five distinct dates and the notebook's
  \<^verbatim>\<open>daysAtOnce = 3\<close>, the second run of the body starts at \<^verbatim>\<open>i = 3\<close> and reads subscript 5
  of a list of length 5: the cell ends in an \<^verbatim>\<open>IndexError\<close> after one batch, although the
  subscript the claim names, \<open>min 5 4\<close>, is in range.
\<close>

theorem price_date_max_index_fault:
  "stream_prices
     [\<lparr>ticker = ''AAPL'', price_date = 1, quotes = []\<rparr>,
      \<lparr>ticker = ''AAPL'', price_date = 2, quotes = []\<rparr>,
      \<lparr>ticker = ''AAPL'', price_date = 3, quotes = []\<rparr>,
      \<lparr>ticker = ''AAPL'', price_date = 4, quotes = []\<rparr>,
      \<lparr>ticker = ''AAPL'', price_date = 5, quotes = []\<rparr>] =
   Some (Inl (IndexError,
        \<lparr>i = 3,
         table =
           [\<lparr>ticker = ''AAPL'', price_date = 1, quotes = []\<rparr>,
            \<lparr>ticker = ''AAPL'', price_date = 2, quotes = []\<rparr>,
            \<lparr>ticker = ''AAPL'', price_date = 3, quotes = []\<rparr>],
         submitted = [(1, 3)], printed = [(1, 3)], slept = 7\<rparr>))
   \<and> py_index [1, 2, 3, 4, 5 :: date] (3 + 3 - 1) = Inl IndexError
   \<and> py_index [1, 2, 3, 4, 5 :: date] (min (3 + 3 - 1) (5 - 1)) = Inr 5"
  by code_simp

section \<open>The table during the replay\<close>

text \<open>
  Claim C4. For a positive \<^verbatim>\<open>daysAtOnce\<close> and a table that starts empty, after each completed
  run of the loop body the table holds exactly the source rows whose price date lies in the
  range of one of the batches processed so far (the pairs printed so far, one per completed
  run): the two are equal as multisets, so no such row is missing and none occurs more often
  than in the source.
\<close>

theorem table_is_union_of_processed_batches:
  assumes "0 < daysAtOnce"
    and "after_iterations (insert_into stockDailyPrices)
           (distinct_price_dates stockDailyPrices) daysAtOnce k start = Some s"
  shows "length (printed s) = k \<and>
         mset (table s) =
         mset (filter (\<lambda>f. \<exists>(lo, hi)\<in>set (printed s). lo \<le> price_date f \<and> price_date f \<le> hi)
                 stockDailyPrices)"
proof -
  let ?ks = "distinct_price_dates stockDailyPrices" and ?b = "nat daysAtOnce"
  from assms have s: "s = state_after stockDailyPrices ?ks ?b k" and fit: "k * ?b \<le> length ?ks"
    by (rule after_iterations_start)+
  have "sorted_wrt (\<lambda>earlier later. snd earlier < fst later) (batches ?ks ?b k)"
    using datelist_strict assms(1) fit by (intro batches_ascending) simp_all
  then have "mset (batch_rows stockDailyPrices (batches ?ks ?b k)) =
     mset (filter (\<lambda>f. \<exists>(lo, hi)\<in>set (batches ?ks ?b k). lo \<le> price_date f \<and> price_date f \<le> hi)
             stockDailyPrices)"
    by (rule batch_rows_mset)
  then show ?thesis
    unfolding s by (simp add: state_after_def batches_def)
qed

theorem table_is_union_of_processed_batches_witness:
  "0 < (2::int)
   \<and> after_iterations (insert_into [day 5, day 1, day 2, day 4, day 2, day 3])
        (distinct_price_dates [day 5, day 1, day 2, day 4, day 2, day 3]) 2 2 start =
      Some \<lparr>i = 4, table = [day 1, day 2, day 2, day 4, day 3],
             submitted = [(1, 2), (3, 4)], printed = [(1, 2), (3, 4)], slept = 14\<rparr>
   \<and> mset [day 1, day 2, day 2, day 4, day 3] =
      mset (filter (\<lambda>f. \<exists>(lo, hi)\<in>set [(1, 2), (3, 4)]. lo \<le> price_date f \<and> price_date f \<le> hi)
              [day 5, day 1, day 2, day 4, day 2, day 3])"
proof -
  have pos: "0 < (2::int)"
    by simp
  have run: "after_iterations (insert_into [day 5, day 1, day 2, day 4, day 2, day 3])
        (distinct_price_dates [day 5, day 1, day 2, day 4, day 2, day 3]) 2 2 start =
      Some \<lparr>i = 4, table = [day 1, day 2, day 2, day 4, day 3],
             submitted = [(1, 2), (3, 4)], printed = [(1, 2), (3, 4)], slept = 14\<rparr>"
    by code_simp
  show ?thesis
    using pos run table_is_union_of_processed_batches [OF pos run] by simp
qed

text \<open>
  Claim C5. For a positive \<^verbatim>\<open>daysAtOnce\<close>, batches are appended in strictly ascending order of
  price date: of two batches, the minimum of the later one is greater than (so not less
  than) the maximum of the earlier one. At each point of the replay the batches appended are
  the first \<open>k\<close> batches of the date list, and the table is their rows in that order.
\<close>

theorem batches_appended_in_ascending_order:
  assumes "0 < daysAtOnce"
    and "after_iterations (insert_into stockDailyPrices)
           (distinct_price_dates stockDailyPrices) daysAtOnce k start = Some s"
  shows "(\<forall>j j'. j < j' \<and> j' < length (printed s) \<longrightarrow>
            snd (printed s ! j) < fst (printed s ! j'))
         \<and> printed s = batches (distinct_price_dates stockDailyPrices) (nat daysAtOnce) k
         \<and> table s = batch_rows stockDailyPrices (printed s)"
proof -
  let ?ks = "distinct_price_dates stockDailyPrices" and ?b = "nat daysAtOnce"
  from assms have s: "s = state_after stockDailyPrices ?ks ?b k" and fit: "k * ?b \<le> length ?ks"
    by (rule after_iterations_start)+
  have "sorted_wrt (\<lambda>earlier later. snd earlier < fst later) (batches ?ks ?b k)"
    using datelist_strict assms(1) fit by (intro batches_ascending) simp_all
  then have "\<forall>j j'. j < j' \<and> j' < length (batches ?ks ?b k) \<longrightarrow>
               snd (batches ?ks ?b k ! j) < fst (batches ?ks ?b k ! j')"
    by (simp add: sorted_wrt_iff_nth_less)
  then show ?thesis
    unfolding s by (simp add: state_after_def)
qed

theorem batches_appended_in_ascending_order_witness:
  "0 < (3::int)
   \<and> after_iterations (insert_into [day 1, day 2, day 3, day 4, day 5, day 6, day 7])
        (distinct_price_dates [day 1, day 2, day 3, day 4, day 5, day 6, day 7]) 3 2 start =
      Some \<lparr>i = 6, table = [day 1, day 2, day 3, day 4, day 5, day 6],
             submitted = [(1, 3), (4, 6)], printed = [(1, 3), (4, 6)], slept = 14\<rparr>
   \<and> (0 :: nat) < 1 \<and> 1 < length [(1, 3), (4, 6) :: date \<times> date]
   \<and> snd ([(1, 3), (4, 6) :: date \<times> date] ! 0) < fst ([(1, 3), (4, 6) :: date \<times> date] ! 1)
   \<and> [(1, 3), (4, 6)] = batches (distinct_price_dates [day 1, day 2, day 3, day 4, day 5, day 6, day 7]) (nat 3) 2
   \<and> [day 1, day 2, day 3, day 4, day 5, day 6] =
       batch_rows [day 1, day 2, day 3, day 4, day 5, day 6, day 7] [(1, 3), (4, 6)]"
proof -
  have pos: "0 < (3::int)"
    by simp
  have run: "after_iterations (insert_into [day 1, day 2, day 3, day 4, day 5, day 6, day 7])
        (distinct_price_dates [day 1, day 2, day 3, day 4, day 5, day 6, day 7]) 3 2 start =
      Some \<lparr>i = 6, table = [day 1, day 2, day 3, day 4, day 5, day 6],
             submitted = [(1, 3), (4, 6)], printed = [(1, 3), (4, 6)], slept = 14\<rparr>"
    by code_simp
  note ascending = batches_appended_in_ascending_order [OF pos run]
  have pair: "(0 :: nat) < 1" "1 < length [(1, 3), (4, 6) :: date \<times> date]"
    by simp_all
  have order: "snd ([(1, 3), (4, 6) :: date \<times> date] ! 0) < fst ([(1, 3), (4, 6) :: date \<times> date] ! 1)"
    using ascending [THEN conjunct1, rule_format, of 0 1] by simp
  have closed: "[(1, 3), (4, 6)] =
      batches (distinct_price_dates [day 1, day 2, day 3, day 4, day 5, day 6, day 7]) (nat 3) 2"
    using ascending [THEN conjunct2, THEN conjunct1] by simp
  have rows: "[day 1, day 2, day 3, day 4, day 5, day 6] =
       batch_rows [day 1, day 2, day 3, day 4, day 5, day 6, day 7] [(1, 3), (4, 6)]"
    using ascending [THEN conjunct2, THEN conjunct2] by simp
  from pos run pair order closed rows show ?thesis
    by (intro conjI)
qed

section \<open>The table when the loop is left\<close>

text \<open>
  What the table holds when the loop returns. For a positive \<^verbatim>\<open>daysAtOnce\<close> and more than one
  distinct price date, a normal return leaves in the table exactly the source rows whose price
  date lies between the first and the last but one distinct date, and no row of the last
  distinct date, when \<^verbatim>\<open>daysAtOnce\<close> divides \<open>n - 1\<close>; when it does not, the range of the last
  batch reaches the last subscript and the table holds every source row. The loop returns
  exactly when \<^verbatim>\<open>daysAtOnce\<close> divides \<open>n - 1\<close> or \<open>n\<close>.
\<close>

lemma rows_when_loop_returns:
  assumes pos: "0 < daysAtOnce"
    and many: "1 < length (distinct_price_dates stockDailyPrices)"
  shows "(\<forall>s. replay (insert_into stockDailyPrices) stockDailyPrices daysAtOnce = Some (Inr s) \<longrightarrow>
            (if nat daysAtOnce dvd (length (distinct_price_dates stockDailyPrices) - 1)
             then mset (table s) =
                    mset (filter (\<lambda>f. distinct_price_dates stockDailyPrices ! 0 \<le> price_date f
                                    \<and> price_date f \<le> distinct_price_dates stockDailyPrices !
                                         (length (distinct_price_dates stockDailyPrices) - 2))
                            stockDailyPrices)
                  \<and> (\<forall>f\<in>set (table s). price_date f \<noteq> distinct_price_dates stockDailyPrices !
                                         (length (distinct_price_dates stockDailyPrices) - 1))
             else mset (table s) = mset stockDailyPrices))
       \<and> ((\<exists>s. replay (insert_into stockDailyPrices) stockDailyPrices daysAtOnce = Some (Inr s)) \<longleftrightarrow>
            nat daysAtOnce dvd (length (distinct_price_dates stockDailyPrices) - 1)
            \<or> nat daysAtOnce dvd length (distinct_price_dates stockDailyPrices))"
proof -
  let ?src = stockDailyPrices
  let ?ks = "distinct_price_dates ?src"
  let ?n = "length ?ks"
  let ?b = "nat daysAtOnce"
  let ?q = "(?n - 1) div ?b"
  from pos have b: "0 < ?b" and int_b: "int ?b = daysAtOnce"
    by simp_all
  have closed: "replay (insert_into ?src) ?src daysAtOnce =
     (if ?b dvd (?n - 1) then Some (Inr (state_after ?src ?ks ?b ?q))
      else if ?b dvd ?n then Some (Inr (state_after ?src ?ks ?b (Suc ?q)))
      else Some (Inl (IndexError, state_after ?src ?ks ?b ?q)))"
    unfolding replay_def using replay_closed_form [OF b, of ?src ?ks] by (simp only: int_b)
  have exact: "mset (table (state_after ?src ?ks ?b ?q)) =
               mset (filter (\<lambda>f. ?ks ! 0 \<le> price_date f \<and> price_date f \<le> ?ks ! (?n - 2)) ?src)
             \<and> (\<forall>f\<in>set (table (state_after ?src ?ks ?b ?q)). price_date f \<noteq> ?ks ! (?n - 1))"
    if dvd: "?b dvd (?n - 1)"
  proof -
    from dvd have q: "?q * ?b = ?n - 1"
      by (rule dvd_div_mult_self)
    with many have "0 < ?q"
      by (cases "?q") simp_all
    moreover from q have "?q * ?b \<le> ?n"
      by simp
    ultimately have "mset (table (state_after ?src ?ks ?b ?q)) =
         mset (filter (\<lambda>f. ?ks ! 0 \<le> price_date f \<and> price_date f \<le> ?ks ! (?q * ?b - 1)) ?src)"
      using b by (intro state_after_rows)
    moreover from q have "?q * ?b - 1 = ?n - 2"
      by simp
    ultimately have rows: "mset (table (state_after ?src ?ks ?b ?q)) =
         mset (filter (\<lambda>f. ?ks ! 0 \<le> price_date f \<and> price_date f \<le> ?ks ! (?n - 2)) ?src)"
      by (simp only:)
    have "price_date f \<noteq> ?ks ! (?n - 1)" if "f \<in> set (table (state_after ?src ?ks ?b ?q))" for f
    proof -
      from that have "f \<in># mset (table (state_after ?src ?ks ?b ?q))"
        by simp
      then have "price_date f \<le> ?ks ! (?n - 2)"
        unfolding rows by simp
      moreover have "?ks ! (?n - 2) < ?ks ! (?n - 1)"
        using many by (simp add: nth_less_iff [OF datelist_strict])
      ultimately show ?thesis by simp
    qed
    with rows show ?thesis by blast
  qed
  have whole: "mset (table (state_after ?src ?ks ?b (Suc ?q))) = mset ?src"
    if short: "\<not> ?b dvd (?n - 1)" and full: "?b dvd ?n"
  proof -
    from b short full have q: "Suc ?q * ?b = ?n"
      by (rule full_quotient)
    then have "mset (table (state_after ?src ?ks ?b (Suc ?q))) =
         mset (filter (\<lambda>f. ?ks ! 0 \<le> price_date f \<and> price_date f \<le> ?ks ! (Suc ?q * ?b - 1)) ?src)"
      using b by (intro state_after_rows) simp_all
    also have "\<dots> = mset (filter (\<lambda>f. ?ks ! 0 \<le> price_date f \<and> price_date f \<le> ?ks ! (?n - 1)) ?src)"
      by (simp only: q)
    also have "\<dots> = mset ?src"
      using many by (simp only: all_rows_in_range)
    finally show ?thesis .
  qed
  show ?thesis
  proof (cases "?b dvd (?n - 1)")
    case True
    with closed exact show ?thesis by simp
  next
    case short: False
    show ?thesis
    proof (cases "?b dvd ?n")
      case True
      with closed short whole show ?thesis by simp
    next
      case False
      with closed short show ?thesis by simp
    qed
  qed
qed

lemma rows_when_loop_returns_example:
  "0 < (3::int)
   \<and> 1 < length (distinct_price_dates [day 1, day 2, day 3, day 4, day 5, day 6, day 7])
   \<and> replay (insert_into [day 1, day 2, day 3, day 4, day 5, day 6, day 7])
        [day 1, day 2, day 3, day 4, day 5, day 6, day 7] 3 =
      Some (Inr \<lparr>i = 6, table = [day 1, day 2, day 3, day 4, day 5, day 6],
                  submitted = [(1, 3), (4, 6)], printed = [(1, 3), (4, 6)], slept = 14\<rparr>)
   \<and> nat 3 dvd (length (distinct_price_dates [day 1, day 2, day 3, day 4, day 5, day 6, day 7]) - 1)
   \<and> mset [day 1, day 2, day 3, day 4, day 5, day 6] =
      mset (filter (\<lambda>f. 1 \<le> price_date f \<and> price_date f \<le> 6)
              [day 1, day 2, day 3, day 4, day 5, day 6, day 7])
   \<and> 1 < length (distinct_price_dates [day 4, day 1, day 5, day 2, day 6, day 3])
   \<and> replay (insert_into [day 4, day 1, day 5, day 2, day 6, day 3])
        [day 4, day 1, day 5, day 2, day 6, day 3] 3 =
      Some (Inr \<lparr>i = 6, table = [day 1, day 2, day 3, day 4, day 5, day 6],
                  submitted = [(1, 3), (4, 6)], printed = [(1, 3), (4, 6)], slept = 14\<rparr>)
   \<and> \<not> nat 3 dvd (length (distinct_price_dates [day 4, day 1, day 5, day 2, day 6, day 3]) - 1)
   \<and> mset [day 1, day 2, day 3, day 4, day 5, day 6] = mset [day 4, day 1, day 5, day 2, day 6, day 3]"
proof -
  let ?all = "[day 4, day 1, day 5, day 2, day 6, day 3]"
  have many': "1 < length (distinct_price_dates ?all)"
    by code_simp
  have run': "replay (insert_into ?all) ?all 3 =
      Some (Inr \<lparr>i = 6, table = [day 1, day 2, day 3, day 4, day 5, day 6],
                  submitted = [(1, 3), (4, 6)], printed = [(1, 3), (4, 6)], slept = 14\<rparr>)"
    by code_simp
  have overlap: "\<not> nat 3 dvd (length (distinct_price_dates ?all) - 1)"
    by code_simp
  let ?src = "[day 1, day 2, day 3, day 4, day 5, day 6, day 7]"
  have pos: "0 < (3::int)"
    by simp
  have many: "1 < length (distinct_price_dates ?src)"
    by code_simp
  have run: "replay (insert_into ?src) ?src 3 =
      Some (Inr \<lparr>i = 6, table = [day 1, day 2, day 3, day 4, day 5, day 6],
                  submitted = [(1, 3), (4, 6)], printed = [(1, 3), (4, 6)], slept = 14\<rparr>)"
    by code_simp
  have dvd: "nat 3 dvd (length (distinct_price_dates ?src) - 1)"
    by code_simp
  have first: "distinct_price_dates ?src ! 0 = 1"
    and last: "distinct_price_dates ?src ! (length (distinct_price_dates ?src) - 2) = 6"
    by code_simp+
  note rows_when_loop_returns [OF pos many, THEN conjunct1, rule_format, OF run]
  then have rows: "mset [day 1, day 2, day 3, day 4, day 5, day 6] =
      mset (filter (\<lambda>f. 1 \<le> price_date f \<and> price_date f \<le> 6) ?src)"
    unfolding if_P [OF dvd] first last by simp
  note rows_when_loop_returns [OF pos many', THEN conjunct1, rule_format, OF run']
  then have rows': "mset [day 1, day 2, day 3, day 4, day 5, day 6] = mset ?all"
    unfolding if_not_P [OF overlap] by simp
  from pos many run dvd rows many' run' overlap rows' show ?thesis
    by (intro conjI)
qed

text \<open>
  Claim C3 says that, for every source with more than one distinct price date, the rows
  appended by the loop are exactly the source rows whose price date lies between the first and
  the last but one distinct date. With five distinct dates and \<^verbatim>\<open>daysAtOnce = 3\<close> the cell
  appends the batch of the dates 1 to 3 and then ends in \<^verbatim>\<open>IndexError\<close>, reading subscript 5
  for the upper bound of the second batch: the loop never completes, and the row of the
  fourth date, which lies between the first and the last but one, is never appended.
\<close>

theorem row_of_last_but_one_date_missing:
  "length (distinct_price_dates [day 1, day 2, day 3, day 4, day 5]) = 5
   \<and> replay (insert_into [day 1, day 2, day 3, day 4, day 5])
        [day 1, day 2, day 3, day 4, day 5] 3 =
      Some (Inl (IndexError,
        \<lparr>i = 3, table = [day 1, day 2, day 3],
         submitted = [(1, 3)], printed = [(1, 3)], slept = 7\<rparr>))
   \<and> filter (\<lambda>f. distinct_price_dates [day 1, day 2, day 3, day 4, day 5] ! 0 \<le> price_date f
                 \<and> price_date f \<le> distinct_price_dates [day 1, day 2, day 3, day 4, day 5] ! (5 - 2))
        [day 1, day 2, day 3, day 4, day 5] =
      [day 1, day 2, day 3, day 4]
   \<and> [day 1, day 2, day 3] \<noteq> [day 1, day 2, day 3, day 4]
   \<and> day 4 \<notin> set [day 1, day 2, day 3]"
  by code_simp

section \<open>The last, short batch\<close>




section \<open>The number of batches\<close>

text \<open>
  Claim C2 says that \<open>\<lceil>(n - 1) / b\<rceil>\<close> batches are appended. With eight distinct dates and the
  notebook's \<^verbatim>\<open>daysAtOnce = 3\<close> that would be three batches; the cell appends two and then raises
  \<^verbatim>\<open>IndexError\<close>, reading subscript 8 for the upper bound of the third. (When the loop does
  return, the number of batches is the one claimed: lemma \<open>batches_when_loop_returns\<close>.)
\<close>

theorem fewer_batches_than_claimed:
  "length (distinct_price_dates [day 1, day 2, day 3, day 4, day 5, day 6, day 7, day 8]) = 8
   \<and> stream_prices [day 1, day 2, day 3, day 4, day 5, day 6, day 7, day 8] =
      Some (Inl (IndexError,
        \<lparr>i = 6, table = [day 1, day 2, day 3, day 4, day 5, day 6],
         submitted = [(1, 3), (4, 6)], printed = [(1, 3), (4, 6)], slept = 14\<rparr>))
   \<and> length [(1, 3), (4, 6) :: date \<times> date] = 2
   \<and> (8 - 1 + 3 - 1) div 3 = (3 :: nat)"
  by code_simp

section \<open>A statement that fails\<close>

text \<open>
  Claim C6, as amended. Let \<^verbatim>\<open>daysAtOnce\<close> be positive and let the engine raise on the statement
  of batch \<open>m\<close> (counting from 0), whose two subscripts are in range, after appending batches
  \<open>0\<close> to \<open>m - 1\<close>. Then the cell ends at once with the engine's exception, unchanged; \<^verbatim>\<open>i\<close> is
  still the first subscript of the failed batch; the table holds exactly the rows of the
  batches before it; the failed statement is the last one submitted, so no later batch is
  attempted; and nothing is printed for it. The cell has no \<^verbatim>\<open>try\<close>: it adds nothing to the
  exception, which carries the range of dates only if the engine put it there.
\<close>

theorem append_failure_halts_replay:
  assumes pos: "0 < daysAtOnce"
    and reach: "Suc (m * nat daysAtOnce) < length (distinct_price_dates stockDailyPrices)"
    and fit: "Suc m * nat daysAtOnce \<le> length (distinct_price_dates stockDailyPrices)"
    and before: "\<forall>j<m. fails (batch (distinct_price_dates stockDailyPrices) (nat daysAtOnce) j) = None"
    and failed: "fails (batch (distinct_price_dates stockDailyPrices) (nat daysAtOnce) m) = Some msg"
  shows "replay (insert_failing fails stockDailyPrices) stockDailyPrices daysAtOnce =
         Some (Inl (SparkException msg,
           \<lparr>i = int (m * nat daysAtOnce),
            table = batch_rows stockDailyPrices
                      (batches (distinct_price_dates stockDailyPrices) (nat daysAtOnce) m),
            submitted = batches (distinct_price_dates stockDailyPrices) (nat daysAtOnce) (Suc m),
            printed = batches (distinct_price_dates stockDailyPrices) (nat daysAtOnce) m,
            slept = 7 * m\<rparr>))"
proof -
  let ?src = stockDailyPrices
  let ?ks = "distinct_price_dates ?src"
  let ?b = "nat daysAtOnce"
  let ?sql = "insert_failing fails ?src"
  from pos have b: "0 < ?b" and int_b: "int ?b = daysAtOnce"
    by simp_all
  have earlier: "Suc (l * ?b) < length ?ks" if "l < m" for l
  proof -
    from that have "l * ?b \<le> m * ?b"
      by (intro mult_le_mono1) simp
    with reach show ?thesis by linarith
  qed
  have "m * ?b \<le> length ?ks"
    using reach by linarith
  then have "after_iterations ?sql ?ks (int ?b) m (state_after ?src ?ks ?b 0) =
        Some (state_after ?src ?ks ?b (0 + m))"
    using b earlier before by (intro run_batches) (simp_all add: insert_failing_appends)
  then have "replay_loop ?sql ?ks (int ?b) start =
             replay_loop ?sql ?ks (int ?b) (state_after ?src ?ks ?b m)"
    by (simp add: state_after_0 after_iterations_loop)
  moreover have "i (state_after ?src ?ks ?b m) < int (length ?ks) - 1"
    unfolding i_state_after using reach by linarith
  moreover have "loop_body ?sql ?ks (int ?b) (state_after ?src ?ks ?b m) =
        Inl (SparkException msg, (state_after ?src ?ks ?b m)\<lparr>submitted := batches ?ks ?b (Suc m)\<rparr>)"
    using b fit
      insert_failing_raises [of fails "batch ?ks ?b m" msg ?src "table (state_after ?src ?ks ?b m)", OF failed]
    by (rule body_raises)
  ultimately have "replay_loop ?sql ?ks (int ?b) start =
        Some (Inl (SparkException msg, (state_after ?src ?ks ?b m)\<lparr>submitted := batches ?ks ?b (Suc m)\<rparr>))"
    by (simp add: loop_raise)
  then show ?thesis
    unfolding replay_def int_b by (simp add: state_after_def)
qed

theorem append_failure_halts_replay_witness:
  "0 < (3::int)
   \<and> Suc (1 * nat 3) < length (distinct_price_dates
         [day 1, day 2, day 3, day 4, day 5, day 6, day 7, day 8, day 9, day 10])
   \<and> Suc 1 * nat 3 \<le> length (distinct_price_dates
         [day 1, day 2, day 3, day 4, day 5, day 6, day 7, day 8, day 9, day 10])
   \<and> map_of [((4, 6), ''storage unavailable'')]
        (batch (distinct_price_dates
           [day 1, day 2, day 3, day 4, day 5, day 6, day 7, day 8, day 9, day 10]) (nat 3) 0) = None
   \<and> map_of [((4, 6), ''storage unavailable'')]
        (batch (distinct_price_dates
           [day 1, day 2, day 3, day 4, day 5, day 6, day 7, day 8, day 9, day 10]) (nat 3) 1) =
       Some ''storage unavailable''
   \<and> replay (insert_failing (map_of [((4, 6), ''storage unavailable'')])
         [day 1, day 2, day 3, day 4, day 5, day 6, day 7, day 8, day 9, day 10])
         [day 1, day 2, day 3, day 4, day 5, day 6, day 7, day 8, day 9, day 10] 3 =
       Some (Inl (SparkException ''storage unavailable'',
         \<lparr>i = 3, table = [day 1, day 2, day 3],
          submitted = [(1, 3), (4, 6)], printed = [(1, 3)], slept = 7\<rparr>))"
proof -
  let ?src = "[day 1, day 2, day 3, day 4, day 5, day 6, day 7, day 8, day 9, day 10]"
  let ?fails = "map_of [((4 :: date, 6 :: date), ''storage unavailable'')]"
  have pos: "0 < (3::int)"
    by simp
  have reach: "Suc (1 * nat 3) < length (distinct_price_dates ?src)"
    by code_simp
  have fit: "Suc 1 * nat 3 \<le> length (distinct_price_dates ?src)"
    by code_simp
  have first: "?fails (batch (distinct_price_dates ?src) (nat 3) 0) = None"
    by code_simp
  then have before: "\<forall>j<1. ?fails (batch (distinct_price_dates ?src) (nat 3) j) = None"
    by simp
  have failed: "?fails (batch (distinct_price_dates ?src) (nat 3) 1) = Some ''storage unavailable''"
    by code_simp
  have state: "\<lparr>i = int (1 * nat 3),
            table = batch_rows ?src (batches (distinct_price_dates ?src) (nat 3) 1),
            submitted = batches (distinct_price_dates ?src) (nat 3) (Suc 1),
            printed = batches (distinct_price_dates ?src) (nat 3) 1,
            slept = 7 * 1\<rparr> =
         \<lparr>i = 3, table = [day 1, day 2, day 3],
          submitted = [(1, 3), (4, 6)], printed = [(1, 3)], slept = 7\<rparr>"
    by code_simp
  have run: "replay (insert_failing ?fails ?src) ?src 3 =
       Some (Inl (SparkException ''storage unavailable'',
         \<lparr>i = 3, table = [day 1, day 2, day 3],
          submitted = [(1, 3), (4, 6)], printed = [(1, 3)], slept = 7\<rparr>))"
    using append_failure_halts_replay [OF pos reach fit before failed] unfolding state .
  from pos reach fit first failed run show ?thesis
    by (intro conjI)
qed

text \<open>
  Claim C6 as stated has the failure carry the range \<open>[batchMin, batchMax]\<close> of the failed batch.
  What the cell surfaces is the engine's exception: an engine that raises the same exception
  for the batch \<open>(1, 3)\<close> and for the batch \<open>(4, 6)\<close> ends the cell with the same exception in
  both runs.
\<close>

theorem append_failure_carries_no_range_counterexample:
  "replay (insert_failing (map_of [((1, 3), ''storage unavailable'')])
      [day 1, day 2, day 3, day 4, day 5, day 6, day 7])
      [day 1, day 2, day 3, day 4, day 5, day 6, day 7] 3 =
   Some (Inl (SparkException ''storage unavailable'',
     \<lparr>i = 0, table = [], submitted = [(1, 3)], printed = [], slept = 0\<rparr>))
   \<and> replay (insert_failing (map_of [((4, 6), ''storage unavailable'')])
      [day 1, day 2, day 3, day 4, day 5, day 6, day 7])
      [day 1, day 2, day 3, day 4, day 5, day 6, day 7] 3 =
   Some (Inl (SparkException ''storage unavailable'',
     \<lparr>i = 3, table = [day 1, day 2, day 3],
      submitted = [(1, 3), (4, 6)], printed = [(1, 3)], slept = 7\<rparr>))"
  by code_simp

section \<open>A value of daysAtOnce that is not positive\<close>

text \<open>
  Claim C8, as amended. The cell does not check \<^verbatim>\<open>daysAtOnce\<close>, which the notebook sets to the
  literal 3, and nothing in it raises a configuration error. For a value that is not positive:
  with at most one distinct price date the cell returns normally and the table is untouched;
  with more than one date and \<^verbatim>\<open>daysAtOnce = 0\<close> the loop never ends (\<^verbatim>\<open>i\<close> stays 0); with more
  than one date and a negative \<^verbatim>\<open>daysAtOnce\<close> the cell ends in an \<^verbatim>\<open>IndexError\<close>, and it does so
  before anything is appended when \<^verbatim>\<open>daysAtOnce < 1 - n\<close>.
\<close>

theorem nonpositive_daysAtOnce_is_not_checked:
  assumes nonpos: "daysAtOnce \<le> 0"
  shows "(length (distinct_price_dates stockDailyPrices) \<le> 1 \<longrightarrow>
            replay (insert_into stockDailyPrices) stockDailyPrices daysAtOnce =
            Some (Inr \<lparr>i = 0, table = [], submitted = [], printed = [], slept = 0\<rparr>))
       \<and> (1 < length (distinct_price_dates stockDailyPrices) \<and> daysAtOnce = 0 \<longrightarrow>
            replay (insert_into stockDailyPrices) stockDailyPrices daysAtOnce = None)
       \<and> (1 < length (distinct_price_dates stockDailyPrices) \<and> daysAtOnce < 0 \<longrightarrow>
            (\<exists>s. replay (insert_into stockDailyPrices) stockDailyPrices daysAtOnce =
                 Some (Inl (IndexError, s))))
       \<and> (1 < length (distinct_price_dates stockDailyPrices)
            \<and> daysAtOnce < 1 - int (length (distinct_price_dates stockDailyPrices)) \<longrightarrow>
            replay (insert_into stockDailyPrices) stockDailyPrices daysAtOnce =
            Some (Inl (IndexError, \<lparr>i = 0, table = [], submitted = [], printed = [], slept = 0\<rparr>)))"
proof -
  let ?src = stockDailyPrices
  let ?ks = "distinct_price_dates ?src"
  let ?run = "replay (insert_into ?src) ?src daysAtOnce"
  have few: "?run = Some (Inr start)" if "length ?ks \<le> 1"
  proof -
    from that have "\<not> i start < int (length ?ks) - 1"
      by (simp add: start_def)
    then show ?thesis
      unfolding replay_def by (rule loop_exit)
  qed
  have zero: "?run = None" if "1 < length ?ks" and "daysAtOnce = 0"
  proof (cases ?run)
    case None
    then show ?thesis .
  next
    case (Some r)
    then have "\<not> (insert_into ?src = insert_into ?src \<and> daysAtOnce = 0 \<and> i start = 0
                  \<and> 1 < length ?ks)"
      unfolding replay_def by (rule zero_step_diverges)
    with that show ?thesis
      by (simp add: start_def)
  qed
  have negative: "\<exists>s. ?run = Some (Inl (IndexError, s))" if "1 < length ?ks" and "daysAtOnce < 0"
  proof -
    have "i start = 0"
      by (simp add: start_def)
    with that(1) have "- int (length ?ks) < i start" and "i start \<le> 0"
      by linarith+
    with that(2,1) show ?thesis
      unfolding replay_def by (rule negative_step_faults)
  qed
  have fast: "?run = Some (Inl (IndexError, start))"
    if many: "1 < length ?ks" and far: "daysAtOnce < 1 - int (length ?ks)"
  proof -
    from many have cond: "i start < int (length ?ks) - 1"
      by (simp add: start_def)
    have "i start = 0"
      by (simp add: start_def)
    with many have "- int (length ?ks) \<le> i start" and "i start < int (length ?ks)"
      by linarith+
    then obtain lo where lo: "py_index ?ks (i start) = Inr lo"
      using py_index_in_range by blast
    from far have "i start + daysAtOnce - 1 < - int (length ?ks)"
      by (simp add: start_def)
    then have "py_index ?ks (i start + daysAtOnce - 1) = Inl IndexError"
      by (rule py_index_below)
    with lo have "loop_body (insert_into ?src) ?ks daysAtOnce start = Inl (IndexError, start)"
      by (rule body_max_fault)
    with cond show ?thesis
      unfolding replay_def by (rule loop_raise)
  qed
  from few zero negative fast show ?thesis
    by (simp add: start_def)
qed

theorem nonpositive_daysAtOnce_is_not_checked_witness:
  "(0 :: int) \<le> 0 \<and> (- 1 :: int) \<le> 0 \<and> (- 2 :: int) \<le> 0
   \<and> length (distinct_price_dates []) \<le> 1
   \<and> replay (insert_into []) [] 0 =
       Some (Inr \<lparr>i = 0, table = [], submitted = [], printed = [], slept = 0\<rparr>)
   \<and> 1 < length (distinct_price_dates [day 1, day 2])
   \<and> replay (insert_into [day 1, day 2]) [day 1, day 2] 0 = None
   \<and> (\<exists>s. replay (insert_into [day 1, day 2]) [day 1, day 2] (- 1) = Some (Inl (IndexError, s)))
   \<and> (- 2 :: int) < 1 - int (length (distinct_price_dates [day 1, day 2]))
   \<and> replay (insert_into [day 1, day 2]) [day 1, day 2] (- 2) =
       Some (Inl (IndexError, \<lparr>i = 0, table = [], submitted = [], printed = [], slept = 0\<rparr>))"
proof -
  have zero: "(0 :: int) \<le> 0" and one: "(- 1 :: int) \<le> 0" and two: "(- 2 :: int) \<le> 0"
    by simp_all
  have few: "length (distinct_price_dates []) \<le> 1"
    by code_simp
  have many: "1 < length (distinct_price_dates [day 1, day 2])"
    by code_simp
  have far: "(- 2 :: int) < 1 - int (length (distinct_price_dates [day 1, day 2]))"
    by code_simp
  have empty: "replay (insert_into []) [] 0 =
       Some (Inr \<lparr>i = 0, table = [], submitted = [], printed = [], slept = 0\<rparr>)"
    using nonpositive_daysAtOnce_is_not_checked [OF zero, of "[]", THEN conjunct1] few by blast
  have forever: "replay (insert_into [day 1, day 2]) [day 1, day 2] 0 = None"
    using nonpositive_daysAtOnce_is_not_checked
            [OF zero, of "[day 1, day 2]", THEN conjunct2, THEN conjunct1] many
    by blast
  have fault: "\<exists>s. replay (insert_into [day 1, day 2]) [day 1, day 2] (- 1) =
                  Some (Inl (IndexError, s))"
    using nonpositive_daysAtOnce_is_not_checked
            [OF one, of "[day 1, day 2]", THEN conjunct2, THEN conjunct2, THEN conjunct1] many
    by simp
  have fast: "replay (insert_into [day 1, day 2]) [day 1, day 2] (- 2) =
       Some (Inl (IndexError, \<lparr>i = 0, table = [], submitted = [], printed = [], slept = 0\<rparr>))"
    using nonpositive_daysAtOnce_is_not_checked
            [OF two, of "[day 1, day 2]", THEN conjunct2, THEN conjunct2, THEN conjunct2] many far
    by blast
  from zero one two few empty many forever fault far fast show ?thesis
    by (intro conjI)
qed

text \<open>
  Claim C8 as stated has every \<open>batchSize \<le> 0\<close> fail with \<open>InvalidConfiguration\<close> before the
  table is touched. With two distinct dates and \<^verbatim>\<open>daysAtOnce = -1\<close> the first run of the body
  reads \<^verbatim>\<open>datelist[0]\<close> and \<^verbatim>\<open>datelist[-2]\<close>, the same date, and appends its rows; the second
  run reads \<^verbatim>\<open>datelist[-3]\<close> and raises \<^verbatim>\<open>IndexError\<close>, with one row in the table.
\<close>

theorem nonpositive_daysAtOnce_counterexample:
  "(- 1 :: int) \<le> 0
   \<and> replay (insert_into [day 1, day 2]) [day 1, day 2] (- 1) =
       Some (Inl (IndexError,
         \<lparr>i = - 1, table = [day 1], submitted = [(1, 1)], printed = [(1, 1)], slept = 7\<rparr>))"
  by code_simp

section \<open>Running the bootstrap twice\<close>

text \<open>
  Claim C9. The bootstrap of the price table (remove the Delta location, read the Parquet
  source with \<^verbatim>\<open>limit(0)\<close>, save it to the Delta location) is idempotent: when a run succeeds,
  the table it leaves is empty with the columns of the source, and a second run on the store
  it left succeeds and leaves the very same store; when a run fails because the source is
  missing, a second run fails in the same way and leaves the same store.
\<close>

theorem table_bootstrap_idempotent:
  "(build_price_table fs = Inr fs' \<longrightarrow>
      build_price_table fs' = Inr fs'
      \<and> (\<exists>df. fs parquetPricePath = Some df
             \<and> fs' deltaPricePath = Some \<lparr>columns = columns df, rows = []\<rparr>))
   \<and> (build_price_table fs = Inl (e, fs') \<longrightarrow> build_price_table fs' = Inl (e, fs'))"
proof -
  have failed: "build_price_table fs' = Inl (e, fs')" if once: "build_price_table fs = Inl (e, fs')"
  proof -
  from once have "fs' = fs_rm deltaPricePath fs" and "fs parquetPricePath = None"
    by (auto simp: build_price_table_def read_parquet_def source_kept Let_def
          split: option.splits)
  with once show "build_price_table fs' = Inl (e, fs')"
    by (simp add: build_price_table_def read_parquet_def source_kept fs_rm_twice Let_def
          split: option.splits)
  qed
  have built: "build_price_table fs' = Inr fs'
      \<and> (\<exists>df. fs parquetPricePath = Some df
             \<and> fs' deltaPricePath = Some \<lparr>columns = columns df, rows = []\<rparr>)"
    if once: "build_price_table fs = Inr fs'"
  proof -
  from once obtain df where df: "fs parquetPricePath = Some df"
    and fs': "fs' = save_overwrite (limit 0 df) deltaPricePath (fs_rm deltaPricePath fs)"
    by (auto simp: build_price_table_def read_parquet_def source_kept Let_def
          split: option.splits)
  have kept: "fs' parquetPricePath = Some df"
    unfolding fs' using df
    by (simp add: save_overwrite_def fs_rm_def deltaPricePath_def parquetPricePath_def)
  have "build_price_table fs' =
        Inr (save_overwrite (limit 0 df) deltaPricePath (fs_rm deltaPricePath fs'))"
    using kept by (simp add: build_price_table_def read_parquet_def source_kept Let_def)
  also have "fs_rm deltaPricePath fs' = fs_rm deltaPricePath fs"
    unfolding fs' by (simp add: fs_rm_saved fs_rm_twice)
  also have "save_overwrite (limit 0 df) deltaPricePath (fs_rm deltaPricePath fs) = fs'"
    by (simp only: fs')
  finally have again: "build_price_table fs' = Inr fs'" .
  have "fs' deltaPricePath = Some \<lparr>columns = columns df, rows = []\<rparr>"
    unfolding fs' by (simp add: save_overwrite_def limit_def)
  with df again show ?thesis
    by blast
  qed
  from built failed show ?thesis
    by blast
qed

theorem table_bootstrap_idempotent_witness:
  "build_price_table
     [parquetPricePath \<mapsto> \<lparr>columns = [''ticker'', ''price_date'', ''close''], rows = [day 1, day 2]\<rparr>,
      deltaPricePath \<mapsto> \<lparr>columns = [''ticker''], rows = [day 9]\<rparr>] =
   Inr [parquetPricePath \<mapsto> \<lparr>columns = [''ticker'', ''price_date'', ''close''], rows = [day 1, day 2]\<rparr>,
        deltaPricePath \<mapsto> \<lparr>columns = [''ticker'', ''price_date'', ''close''], rows = []\<rparr>]
   \<and> build_price_table
     [parquetPricePath \<mapsto> \<lparr>columns = [''ticker'', ''price_date'', ''close''], rows = [day 1, day 2]\<rparr>,
      deltaPricePath \<mapsto> \<lparr>columns = [''ticker'', ''price_date'', ''close''], rows = []\<rparr>] =
   Inr [parquetPricePath \<mapsto> \<lparr>columns = [''ticker'', ''price_date'', ''close''], rows = [day 1, day 2]\<rparr>,
        deltaPricePath \<mapsto> \<lparr>columns = [''ticker'', ''price_date'', ''close''], rows = []\<rparr>]
   \<and> build_price_table Map.empty = Inl (SparkException ''Path does not exist'', Map.empty)"
proof -
  let ?df = "\<lparr>columns = [''ticker'', ''price_date'', ''close''], rows = [day 1, day 2]\<rparr>"
  let ?new = "\<lparr>columns = [''ticker'', ''price_date'', ''close''], rows = []\<rparr>"
  let ?fs = "[parquetPricePath \<mapsto> ?df, deltaPricePath \<mapsto> \<lparr>columns = [''ticker''], rows = [day 9]\<rparr>]"
  let ?fs' = "[parquetPricePath \<mapsto> ?df, deltaPricePath \<mapsto> ?new]"
  have differ: "parquetPricePath \<noteq> deltaPricePath"
    by (simp add: deltaPricePath_def parquetPricePath_def)
  have apart: "\<not> prefix deltaPricePath parquetPricePath"
    by (simp add: deltaPricePath_def parquetPricePath_def)
  have removed: "fs_rm deltaPricePath ?fs = [parquetPricePath \<mapsto> ?df]"
    using apart by (auto simp: fs_rm_def fun_eq_iff)
  have kept: "fs_rm deltaPricePath [parquetPricePath \<mapsto> ?df] = [parquetPricePath \<mapsto> ?df]"
    using apart by (auto simp: fs_rm_def fun_eq_iff)
  have read: "read_parquet [parquetPricePath \<mapsto> ?df] parquetPricePath = Inr ?df"
    by (simp add: read_parquet_def)
  have saved: "save_overwrite (limit 0 ?df) deltaPricePath [parquetPricePath \<mapsto> ?df] = ?fs'"
    unfolding save_overwrite_def kept by (simp add: limit_def)
  have once: "build_price_table ?fs = Inr ?fs'"
    by (simp only: build_price_table_def removed Let_def read saved sum.case)
  have "fs_rm deltaPricePath Map.empty = Map.empty"
    by (simp add: fs_rm_def fun_eq_iff)
  then have none: "build_price_table Map.empty =
                   Inl (SparkException ''Path does not exist'', Map.empty)"
    by (simp add: build_price_table_def read_parquet_def)
  from table_bootstrap_idempotent [of ?fs ?fs'] once
  have twice: "build_price_table ?fs' = Inr ?fs'"
    by blast
  from table_bootstrap_idempotent [of Map.empty Map.empty "SparkException ''Path does not exist''"] none
  have "build_price_table Map.empty = Inl (SparkException ''Path does not exist'', Map.empty)"
    by blast
  with once twice show ?thesis
    by (intro conjI)
qed

end
